theory Spec2Isabelle
  imports Complex_Main
begin

section \<open>Streaming message splitters (ooba\_client.py)\<close>

text \<open>
  Python strings are modelled as \<^typ>\<open>string\<close>: one \<^typ>\<open>char\<close> stands for one
  code point of the Python \<open>str\<close> (code points below 256), so \<^const>\<open>length\<close> is
  Python's \<open>len\<close>, \<open>drop i s\<close> is the slice \<open>s[i:]\<close> for \<open>i \<ge> 0\<close> and
  \<open>s @ t\<close> is \<open>s + t\<close>.
\<close>

subsection \<open>The accumulator\<close>

text \<open>\<open>MessageSplitter.END_OF_INPUT = ""\<close>.\<close>

definition END_OF_INPUT :: string where
  "END_OF_INPUT = []"

text \<open>
  The two fields set by \<open>MessageSplitter.__init__\<close>. The cursor starts at 0 and the
  code only ever adds an offset (\<open>len(unseen)\<close>, \<open>match.end()\<close> or the start of
  a span) to it, so it is a natural number.
\<close>

record MessageSplitter =
  printed_idx :: nat
  full_response :: string

definition new_splitter :: MessageSplitter where
  "new_splitter = \<lparr>printed_idx = 0, full_response = []\<rparr>"

subsection \<open>\<open>str.strip()\<close> and \<open>str.endswith("\n")\<close>\<close>

text \<open>
  \<open>str.isspace\<close> on the code points below 256: tab, line feed, vertical tab, form feed,
  carriage return, the four separators 0x1C to 0x1F, space, next line (0x85) and
  no-break space (0xA0).
\<close>

definition isspace :: "char \<Rightarrow> bool" where
  "isspace c = (of_char c \<in> {9, 10, 11, 12, 13, 28, 29, 30, 31, 32, 133, 160 :: nat})"

definition strip :: "string \<Rightarrow> string" where
  "strip s = rev (dropWhile isspace (rev (dropWhile isspace s)))"

definition newline :: char where
  "newline = CHR 0x0A"

definition endswith_newline :: "string \<Rightarrow> bool" where
  "endswith_newline s = (s \<noteq> [] \<and> last s = newline)"

subsection \<open>The two strategies\<close>

text \<open>
  \<open>re.compile(regex).match(unseen)\<close> is the regular-expression library, which is not part
  of the repository: a compiled pattern is a function from the window to
  \<open>None\<close> (no match at the start of the window) or to the pair of
  \<open>match.group(1)\<close> and \<open>match.end()\<close>. The pattern has its capture group in every
  match, as the configuration asks, so group 1 is a string.
\<close>

type_synonym pattern = "string \<Rightarrow> (string \<times> nat) option"

text \<open>
  \<open>pysbd.utils.TextSpan\<close>, and the segmenter \<open>pysbd.Segmenter(...).segment\<close>, which
  is a library as well: a function from the window to its list of spans.
\<close>

record TextSpan =
  sent :: string
  start :: nat
  span_end :: nat

type_synonym segmenter = "string \<Rightarrow> TextSpan list"

datatype splitter = RegexSplitter pattern | SentenceSplitter segmenter

text \<open>
  The loop of \<open>RegexSplitter.partition\<close>. \<open>unseen\<close> is the loop's local variable,
  \<open>idx\<close> is \<open>self.printed_idx\<close> and \<open>full\<close> is \<open>self.full_response\<close>, which the loop
  only reads. The result is the list of yielded strings and the final cursor; the value
  \<open>None\<close> of the option type is a loop that never ends.
\<close>

partial_function (option) regex_loop ::
  "pattern \<Rightarrow> string \<Rightarrow> string \<Rightarrow> nat \<Rightarrow> (string list \<times> nat) option" where
  "regex_loop pat full unseen idx =
     (case pat unseen of
        None \<Rightarrow> Some ([], idx)
      | Some (to_print, e) \<Rightarrow>
          Option.bind (regex_loop pat full (drop (idx + e) full) (idx + e))
            (\<lambda>(out, idx'). Some (to_print # out, idx')))"

declare regex_loop.simps [code]

definition partition_regex ::
  "pattern \<Rightarrow> MessageSplitter \<Rightarrow> string \<Rightarrow> (string list \<times> MessageSplitter) option" where
  "partition_regex pat self unseen =
     map_option (\<lambda>(out, idx'). (out, self\<lparr>printed_idx := idx'\<rparr>))
       (regex_loop pat (full_response self) unseen (printed_idx self))"

text \<open>
  \<open>SentenceSplitter.partition\<close>: the loop over \<open>segments[:-1]\<close> yields each sentence
  without its last line feed, then the cursor moves by \<open>segments[-1].start\<close> when there
  is a segment.
\<close>

definition strip_newline :: "string \<Rightarrow> string" where
  "strip_newline to_print = (if endswith_newline to_print then butlast to_print else to_print)"

definition partition_sentence ::
  "segmenter \<Rightarrow> MessageSplitter \<Rightarrow> string \<Rightarrow> string list \<times> MessageSplitter" where
  "partition_sentence seg self unseen =
     (let segments = seg unseen;
          out = map (\<lambda>sp. strip_newline (sent sp)) (butlast segments)
      in if length segments > 0
         then (out, self\<lparr>printed_idx := printed_idx self + start (last segments)\<rparr>)
         else (out, self))"

fun partition :: "splitter \<Rightarrow> MessageSplitter \<Rightarrow> string \<Rightarrow> (string list \<times> MessageSplitter) option" where
  "partition (RegexSplitter pat) self unseen = partition_regex pat self unseen"
| "partition (SentenceSplitter seg) self unseen = Some (partition_sentence seg self unseen)"

text \<open>
  \<open>MessageSplitter.next\<close>: the strings the generator yields, in order, and the splitter
  afterwards.
\<close>

definition splitter_next ::
  "splitter \<Rightarrow> MessageSplitter \<Rightarrow> string \<Rightarrow> (string list \<times> MessageSplitter) option" where
  "splitter_next sp self new_token =
     (let self1 = self\<lparr>full_response := full_response self @ new_token\<rparr>;
          unseen = drop (printed_idx self1) (full_response self1)
      in if END_OF_INPUT = new_token
         then Some ((if strip unseen \<noteq> [] then [unseen] else []),
                    self1\<lparr>printed_idx := printed_idx self1 + length unseen\<rparr>)
         else partition sp self1 unseen)"

text \<open>A sequence of calls of \<open>next\<close> on one splitter: what each call yields, and the final state.\<close>

fun feed :: "splitter \<Rightarrow> MessageSplitter \<Rightarrow> string list \<Rightarrow> (string list list \<times> MessageSplitter) option" where
  "feed sp self [] = Some ([], self)"
| "feed sp self (t # ts) =
     (case splitter_next sp self t of
        None \<Rightarrow> None
      | Some (out, self') \<Rightarrow>
          (case feed sp self' ts of
             None \<Rightarrow> None
           | Some (outs, self'') \<Rightarrow> Some (out # outs, self'')))"

text \<open>
  The pattern \<open>(.*?)\n\<close> under \<open>re.match\<close>: \<open>.\<close> matches any character but
  a line feed, so the match exists exactly when the window holds a line feed, group 1 is
  the text before the first one and the match ends right after it.
\<close>

definition line_pattern :: pattern where
  "line_pattern unseen =
     (let g = takeWhile (\<lambda>c. c \<noteq> newline) unseen
      in if length g < length unseen then Some (g, length g + 1) else None)"

text \<open>
  What the libraries guarantee about their results: \<open>match.end()\<close> is an offset into
  the window that was matched, and the start of a span is an offset into the text that was
  segmented.
\<close>

definition match_in_window :: "pattern \<Rightarrow> bool" where
  "match_in_window pat = (\<forall>u g e. pat u = Some (g, e) \<longrightarrow> e \<le> length u)"

definition spans_in_window :: "segmenter \<Rightarrow> bool" where
  "spans_in_window seg = (\<forall>u. seg u \<noteq> [] \<longrightarrow> start (last (seg u)) \<le> length u)"

fun offsets_in_window :: "splitter \<Rightarrow> bool" where
  "offsets_in_window (RegexSplitter pat) = match_in_window pat"
| "offsets_in_window (SentenceSplitter seg) = spans_in_window seg"

text \<open>The precondition on the pattern: a match is never empty.\<close>

definition consumes :: "pattern \<Rightarrow> bool" where
  "consumes pat = (\<forall>u g e. pat u = Some (g, e) \<longrightarrow> 0 < e)"

fun makes_progress :: "splitter \<Rightarrow> bool" where
  "makes_progress (RegexSplitter pat) = consumes pat"
| "makes_progress (SentenceSplitter seg) = True"

section \<open>The token stream and its batching (OobaClient)\<close>

subsection \<open>\<open>request_by_token\<close>\<close>

text \<open>
  One server-sent event after \<open>json.loads\<close>: the fields \<open>choices[0].text\<close> and
  \<open>choices[0].finish_reason\<close> (\<open>None\<close> for JSON null), or a payload on which the
  decoding or one of the lookups raises.
\<close>

datatype event = Payload string "string option" | Malformed

text \<open>How the generator ends: after yielding the marker, by running out of events, or by raising.\<close>

datatype ending = Finished | Exhausted | Raised

text \<open>
  The loop over \<open>client.events()\<close>: the strings yielded, in order, and the ending. The
  counter \<open>total_response_tokens\<close> and the logging are left out.
\<close>

fun request_by_token :: "event list \<Rightarrow> string list \<times> ending" where
  "request_by_token [] = ([], Exhausted)"
| "request_by_token (Malformed # events) = ([], Raised)"
| "request_by_token (Payload text finish_reason # events) =
     (let yielded = (if text \<noteq> END_OF_INPUT then [text] else [])
      in if finish_reason \<noteq> None
         then (yielded @ [END_OF_INPUT], Finished)
         else (case request_by_token events of (rest, e) \<Rightarrow> (yielded @ rest, e)))"

subsection \<open>\<open>request_as_grouped_tokens\<close>\<close>

text \<open>
  \<open>time.perf_counter()\<close> is a clock read by the code: \<open>clk k\<close> is what its \<open>k\<close>-th
  call returns, counting from 0. The loop reads it once for every token that is not the
  marker (\<open>now\<close>) and once more after each batch it has yielded. Times and the interval
  are floating-point numbers: \<open>fadd\<close> is their addition \<open>last_response + interval\<close>,
  which rounds, and the comparison \<open>now < ...\<close> is the order of the numbers.
\<close>

type_synonym 't clock = "nat \<Rightarrow> 't"

fun grouped_loop ::
  "('t \<Rightarrow> 't \<Rightarrow> 't) \<Rightarrow> ('t :: ord) clock \<Rightarrow> 't \<Rightarrow> string list \<Rightarrow> nat \<Rightarrow> string \<Rightarrow> 't \<Rightarrow> string list" where
  "grouped_loop fadd clk interval [] k tokens last_response = []"
| "grouped_loop fadd clk interval (token # rest) k tokens last_response =
     (if token = END_OF_INPUT then (if tokens \<noteq> [] then [tokens] else [])
      else (let tokens' = tokens @ token; now = clk k
            in if now < fadd last_response interval
               then grouped_loop fadd clk interval rest (k + 1) tokens' last_response
               else tokens' # grouped_loop fadd clk interval rest (k + 2) [] (clk (k + 1))))"

text \<open>The batches yielded for the token stream \<open>stream\<close> that \<open>request_by_token\<close> delivers.\<close>

definition request_as_grouped_tokens ::
  "('t \<Rightarrow> 't \<Rightarrow> 't) \<Rightarrow> ('t :: ord) clock \<Rightarrow> 't \<Rightarrow> string list \<Rightarrow> string list" where
  "request_as_grouped_tokens fadd clk interval stream =
     grouped_loop fadd clk interval stream 1 [] (clk 0)"

text \<open>
  Floating-point numbers are real numbers, and the sum of two of them is the exact sum
  rounded to a floating-point number by \<open>rnd\<close>. Every rounding mode is monotone and leaves
  a number that is representable unchanged; the integers of the examples are
  representable.
\<close>

definition rounded_add :: "(real \<Rightarrow> real) \<Rightarrow> real \<Rightarrow> real \<Rightarrow> real" where
  "rounded_add rnd x y = rnd (x + y)"

definition monotone_rounding :: "(real \<Rightarrow> real) \<Rightarrow> bool" where
  "monotone_rounding rnd = (\<forall>x y. x \<le> y \<longrightarrow> rnd x \<le> rnd y)"

text \<open>
  A rounding for the examples, to the nearest multiple of \<open>1/1024\<close>: coarser than the
  rounding of doubles, monotone as well, and exact on the integers.
\<close>

definition grid_round :: "real \<Rightarrow> real" where
  "grid_round x = of_int \<lfloor>x * 1024 + 1 / 2\<rfloor> / 1024"

text \<open>
  The clock of the batching example: the request starts at \<open>s\<close>, the five tokens arrive
  at 0, 30, 60, 90 and 150, and every later reading is \<open>r\<close>.
\<close>

definition example_clock :: "real \<Rightarrow> real \<Rightarrow> real clock" where
  "example_clock s r = (\<lambda>k. r)(0 := s, 1 := 0, 2 := 30, 3 := 60, 4 := 90, 5 := 150)"

section \<open>Template validation (templates.py)\<close>

datatype TemplateToken =
  AI_NAME | PERSONA | IMAGE_COMING | IMAGE_PROMPT | MESSAGE_HISTORY | USER_MESSAGE | USER_NAME

text \<open>The string value of a member; \<open>TemplateToken\<close> is a \<open>str\<close> subclass, so \<open>len\<close> and \<open>+\<close> work on it.\<close>

fun token_value :: "TemplateToken \<Rightarrow> string" where
  "token_value AI_NAME = ''AI_NAME''"
| "token_value PERSONA = ''PERSONA''"
| "token_value IMAGE_COMING = ''IMAGE_COMING''"
| "token_value IMAGE_PROMPT = ''IMAGE_PROMPT''"
| "token_value MESSAGE_HISTORY = ''MESSAGE_HISTORY''"
| "token_value USER_MESSAGE = ''USER_MESSAGE''"
| "token_value USER_NAME = ''USER_NAME''"

datatype error = ValueError | KeyError | IndexError | Unsupported

text \<open>The inner generator \<open>find_all_ch\<close>.\<close>

definition find_all_ch :: "string \<Rightarrow> char \<Rightarrow> nat list" where
  "find_all_ch string ch = filter (\<lambda>i. string ! i = ch) [0 ..< length string]"

text \<open>The slice \<open>s[i:j]\<close> for offsets that are not negative.\<close>

definition slice :: "string \<Rightarrow> nat \<Rightarrow> nat \<Rightarrow> string" where
  "slice s i j = take (j - i) (drop i s)"

text \<open>
  The inner \<open>for ... else\<close> over \<open>allowed_args\<close> at one opening brace: the index added
  to \<open>allowed_close_brace_indices\<close> by the first argument that fits, or \<open>None\<close> when
  the \<open>else\<close> branch raises.
\<close>

fun first_allowed :: "string \<Rightarrow> nat \<Rightarrow> TemplateToken list \<Rightarrow> nat option" where
  "first_allowed format_str open_brace_idx [] = None"
| "first_allowed format_str open_brace_idx (allowed_arg # allowed_args) =
     (let idx_end = open_brace_idx + length (token_value allowed_arg) + 1;
          next_substr = slice format_str open_brace_idx (idx_end + 1)
      in if next_substr = ''{'' @ token_value allowed_arg @ ''}''
         then Some idx_end
         else first_allowed format_str open_brace_idx allowed_args)"

fun open_braces :: "string \<Rightarrow> TemplateToken list \<Rightarrow> nat list \<Rightarrow> nat set \<Rightarrow> error + nat set" where
  "open_braces format_str allowed_args [] allowed_close_brace_indices =
     Inr allowed_close_brace_indices"
| "open_braces format_str allowed_args (open_brace_idx # rest) allowed_close_brace_indices =
     (case first_allowed format_str open_brace_idx allowed_args of
        None \<Rightarrow> Inl ValueError
      | Some idx_end \<Rightarrow>
          open_braces format_str allowed_args rest (insert idx_end allowed_close_brace_indices))"

fun close_braces :: "nat list \<Rightarrow> nat set \<Rightarrow> error + unit" where
  "close_braces [] allowed_close_brace_indices = Inr ()"
| "close_braces (close_brace_idx # rest) allowed_close_brace_indices =
     (if close_brace_idx \<notin> allowed_close_brace_indices then Inl ValueError
      else close_braces rest allowed_close_brace_indices)"

definition validate_format_string :: "string \<Rightarrow> TemplateToken list \<Rightarrow> error + unit" where
  "validate_format_string format_str allowed_args =
     (case open_braces format_str allowed_args (find_all_ch format_str CHR ''{'') {} of
        Inl e \<Rightarrow> Inl e
      | Inr allowed_close_brace_indices \<Rightarrow>
          close_braces (find_all_ch format_str CHR ''}'') allowed_close_brace_indices)"

subsection \<open>Substitutions in a template\<close>

text \<open>
  Where the validation looks for a substitution: \<open>{TOKEN}\<close> stands in \<open>format_str\<close>
  from index \<open>i\<close> on; an opening brace at \<open>i\<close> begins a substitution of an allowed
  token, a closing brace at \<open>j\<close> ends one.
\<close>

definition occurs :: "string \<Rightarrow> nat \<Rightarrow> TemplateToken \<Rightarrow> bool" where
  "occurs format_str i a =
     (slice format_str i (i + length (token_value a) + 2) = ''{'' @ token_value a @ ''}'')"

definition begins_token :: "string \<Rightarrow> TemplateToken list \<Rightarrow> nat \<Rightarrow> bool" where
  "begins_token format_str allowed_args i = (\<exists>a \<in> set allowed_args. occurs format_str i a)"

definition ends_token :: "string \<Rightarrow> TemplateToken list \<Rightarrow> nat \<Rightarrow> bool" where
  "ends_token format_str allowed_args j =
     (\<exists>a \<in> set allowed_args. length (token_value a) + 1 \<le> j \<and>
        occurs format_str (j - (length (token_value a) + 1)) a)"

subsection \<open>\<open>str.format\<close>\<close>

text \<open>
  \<open>TemplateMessageFormatter.format\<close> is \<open>self.template.format(**format_args)\<close>. The
  method \<open>str.format\<close> belongs to Python, not to the repository; what follows is its
  scanner for replacement fields that are plain keyword names. Text is copied, \<open>{{\<close> and
  \<open>}}\<close> stand for one brace, a single \<open>}\<close> or an unclosed \<open>{\<close> raises
  \<open>ValueError\<close>, a field that is empty or a number asks for a positional argument, of
  which there is none (\<open>IndexError\<close>), and any other field is looked up among the keyword
  arguments (\<open>KeyError\<close> when absent). Fields with a conversion, a format specification,
  an attribute, an index or a nested field are outside this fragment and give
  \<open>Unsupported\<close>. The second argument of the loop is the field being read, if any.
\<close>

definition is_digit :: "char \<Rightarrow> bool" where
  "is_digit c = (c \<in> set ''0123456789'')"

definition emit :: "string \<Rightarrow> error + string \<Rightarrow> error + string" where
  "emit v r = (case r of Inl e \<Rightarrow> Inl e | Inr t \<Rightarrow> Inr (v @ t))"

fun format_loop :: "(string \<Rightarrow> string option) \<Rightarrow> string option \<Rightarrow> string \<Rightarrow> error + string" where
  "format_loop kwargs None [] = Inr []"
| "format_loop kwargs (Some field) [] = Inl ValueError"
| "format_loop kwargs None (c # s) =
     (if c = CHR ''{'' then
        (case s of
           [] \<Rightarrow> Inl ValueError
         | d # s' \<Rightarrow>
             if d = CHR ''{'' then emit ''{'' (format_loop kwargs None s')
             else format_loop kwargs (Some []) s)
      else if c = CHR ''}'' then
        (case s of
           [] \<Rightarrow> Inl ValueError
         | d # s' \<Rightarrow>
             if d = CHR ''}'' then emit ''}'' (format_loop kwargs None s')
             else Inl ValueError)
      else emit [c] (format_loop kwargs None s))"
| "format_loop kwargs (Some field) (c # s) =
     (if c = CHR ''}'' then
        (if list_all is_digit field then Inl IndexError
         else case kwargs field of
                None \<Rightarrow> Inl KeyError
              | Some v \<Rightarrow> emit v (format_loop kwargs None s))
      else if c \<in> set ''{!:.['' then Inl Unsupported
      else format_loop kwargs (Some (field @ [c])) s)"

text \<open>
  The keyword arguments that \<open>**format_args\<close> passes: the members of \<open>TemplateToken\<close>
  are strings, so the keyword named \<open>name\<close> is the entry of the member with that value.
\<close>

definition all_tokens :: "TemplateToken list" where
  "all_tokens = [AI_NAME, PERSONA, IMAGE_COMING, IMAGE_PROMPT, MESSAGE_HISTORY, USER_MESSAGE, USER_NAME]"

definition kwargs :: "(TemplateToken \<Rightarrow> string option) \<Rightarrow> string \<Rightarrow> string option" where
  "kwargs format_args name =
     (case find (\<lambda>a. token_value a = name) all_tokens of
        None \<Rightarrow> None
      | Some a \<Rightarrow> format_args a)"

definition format :: "string \<Rightarrow> (TemplateToken \<Rightarrow> string option) \<Rightarrow> error + string" where
  "format template format_args = format_loop (kwargs format_args) None template"

text \<open>
  A template read as a sequence of literal texts and substitutions, what each part is in
  the template and what it becomes under \<open>format_args\<close>.
\<close>

datatype part = Literal string | Field TemplateToken

fun part_text :: "part \<Rightarrow> string" where
  "part_text (Literal l) = l"
| "part_text (Field a) = ''{'' @ token_value a @ ''}''"

fun part_value :: "(TemplateToken \<Rightarrow> string option) \<Rightarrow> part \<Rightarrow> string" where
  "part_value format_args (Literal l) = l"
| "part_value format_args (Field a) = (case format_args a of None \<Rightarrow> [] | Some v \<Rightarrow> v)"

fun part_ok :: "TemplateToken list \<Rightarrow> part \<Rightarrow> bool" where
  "part_ok allowed_args (Literal l) = (CHR ''{'' \<notin> set l \<and> CHR ''}'' \<notin> set l)"
| "part_ok allowed_args (Field a) = (a \<in> set allowed_args)"


section \<open>Inputs of the examples\<close>

text \<open>A segmenter that answers with the same two spans on every text, and the pattern \<open>()\<close>, which matches the empty string everywhere.\<close>

definition two_spans :: segmenter where
  "two_spans u = [\<lparr>sent = ''Hi. '' @ [newline], start = 0, span_end = 5\<rparr>,
                  \<lparr>sent = ''Yo'' @ [newline], start = 5, span_end = 8\<rparr>]"

definition empty_pattern :: pattern where
  "empty_pattern unseen = Some ([], 0)"

section \<open>Properties of the splitters\<close>

lemma match_bound:
  "match_in_window pat \<Longrightarrow> pat (drop idx full) = Some (g, e) \<Longrightarrow> e \<le> length full - idx"
  unfolding match_in_window_def by (metis length_drop)

lemma regex_loop_no_match:
  "pat unseen = None \<Longrightarrow> regex_loop pat full unseen idx = Some ([], idx)"
  by (subst regex_loop.simps) simp

lemma regex_loop_match:
  "pat unseen = Some (g, e) \<Longrightarrow>
   regex_loop pat full unseen idx =
     Option.bind (regex_loop pat full (drop (idx + e) full) (idx + e))
       (\<lambda>(out, idx'). Some (g # out, idx'))"
  by (subst regex_loop.simps) simp

lemma regex_loop_total_window:
  assumes w: "match_in_window pat" and c: "consumes pat"
  shows "\<exists>out idx'. regex_loop pat full (drop idx full) idx = Some (out, idx') \<and> idx + length out \<le> idx'"
proof (induction "length full - idx" arbitrary: idx rule: less_induct)
  case less
  show ?case
  proof (cases "pat (drop idx full)")
    case None
    then show ?thesis by (simp add: regex_loop_no_match)
  next
    case (Some m)
    obtain g e where m: "m = (g, e)" by (cases m)
    from Some m c have "0 < e" by (auto simp: consumes_def)
    moreover from Some m w have "e \<le> length full - idx" by (simp add: match_bound)
    ultimately have e: "0 < e" "e \<le> length full - idx" by simp_all
    then have "length full - (idx + e) < length full - idx" by simp
    from less[OF this] obtain out idx' where
      r: "regex_loop pat full (drop (idx + e) full) (idx + e) = Some (out, idx')"
      and b: "idx + e + length out \<le> idx'" by blast
    from Some m r b e show ?thesis by (simp add: regex_loop_match)
  qed
qed

lemma regex_loop_total:
  assumes w: "match_in_window pat" and c: "consumes pat"
  shows "\<exists>out idx'. regex_loop pat full unseen idx = Some (out, idx') \<and> idx + length out \<le> idx'"
proof (cases "pat unseen")
  case None
  then show ?thesis by (simp add: regex_loop_no_match)
next
  case (Some m)
  obtain g e where m: "m = (g, e)" by (cases m)
  from Some m c have e: "0 < e" by (auto simp: consumes_def)
  from regex_loop_total_window[OF w c, of full "idx + e"] obtain out idx' where
    r: "regex_loop pat full (drop (idx + e) full) (idx + e) = Some (out, idx')"
    and b: "idx + e + length out \<le> idx'" by blast
  from Some m r b e show ?thesis by (simp add: regex_loop_match)
qed

lemma regex_loop_empty_match_raw:
  assumes "regex_loop pat full unseen idx = Some y"
  shows "\<not> (unseen = drop idx full \<and> (\<exists>g. pat unseen = Some (g, 0)))"
proof (rule regex_loop.raw_induct[where
      P = "\<lambda>pat full unseen idx y. \<not> (unseen = drop idx full \<and> (\<exists>g. pat unseen = Some (g, 0)))",
      OF _ assms])
  fix regex_loop' :: "pattern \<Rightarrow> string \<Rightarrow> string \<Rightarrow> nat \<Rightarrow> (string list \<times> nat) option"
  fix pat full unseen idx y
  assume IH: "\<And>pat full unseen idx y. regex_loop' pat full unseen idx = Some y \<Longrightarrow>
      \<not> (unseen = drop idx full \<and> (\<exists>g. pat unseen = Some (g, 0)))"
  assume body: "(case pat unseen of None \<Rightarrow> Some ([], idx)
      | Some (to_print, e) \<Rightarrow>
          Option.bind (regex_loop' pat full (drop (idx + e) full) (idx + e))
           (\<lambda>(out, idx'). Some (to_print # out, idx'))) = Some y"
  show "\<not> (unseen = drop idx full \<and> (\<exists>g. pat unseen = Some (g, 0)))"
  proof
    assume a: "unseen = drop idx full \<and> (\<exists>g. pat unseen = Some (g, 0))"
    then obtain g where g: "pat unseen = Some (g, 0)" by blast
    with body obtain y' where "regex_loop' pat full (drop idx full) idx = Some y'"
      by (auto simp: Option.bind_eq_Some_conv)
    from IH[OF this] a show False by blast
  qed
qed

lemma regex_loop_empty_match:
  "pat (drop idx full) = Some (g, 0) \<Longrightarrow> regex_loop pat full (drop idx full) idx = None"
  using regex_loop_empty_match_raw[of pat full "drop idx full" idx]
  by (cases "regex_loop pat full (drop idx full) idx") auto

lemma regex_loop_bounds:
  assumes "regex_loop pat full unseen idx = Some y"
  shows "match_in_window pat \<longrightarrow> unseen = drop idx full \<longrightarrow> idx \<le> length full \<longrightarrow>
     idx \<le> snd y \<and> snd y \<le> length full"
proof (rule regex_loop.raw_induct[where
      P = "\<lambda>pat full unseen idx y. match_in_window pat \<longrightarrow> unseen = drop idx full \<longrightarrow>
             idx \<le> length full \<longrightarrow> idx \<le> snd y \<and> snd y \<le> length full",
      OF _ assms])
  fix regex_loop' :: "pattern \<Rightarrow> string \<Rightarrow> string \<Rightarrow> nat \<Rightarrow> (string list \<times> nat) option"
  fix pat full unseen idx y
  assume IH: "\<And>pat full unseen idx y. regex_loop' pat full unseen idx = Some y \<Longrightarrow>
      match_in_window pat \<longrightarrow> unseen = drop idx full \<longrightarrow>
             idx \<le> length full \<longrightarrow> idx \<le> snd y \<and> snd y \<le> length full"
  assume body: "(case pat unseen of None \<Rightarrow> Some ([], idx)
      | Some (to_print, e) \<Rightarrow>
          Option.bind (regex_loop' pat full (drop (idx + e) full) (idx + e))
           (\<lambda>(out, idx'). Some (to_print # out, idx'))) = Some y"
  show "match_in_window pat \<longrightarrow> unseen = drop idx full \<longrightarrow>
             idx \<le> length full \<longrightarrow> idx \<le> snd y \<and> snd y \<le> length full"
  proof (intro impI)
    assume w: "match_in_window pat" and u: "unseen = drop idx full" and i: "idx \<le> length full"
    show "idx \<le> snd y \<and> snd y \<le> length full"
    proof (cases "pat unseen")
      case None
      with body i show ?thesis by auto
    next
      case (Some m)
      obtain g e where m: "m = (g, e)" by (cases m)
      from Some m w u have e: "e \<le> length full - idx" by (simp add: match_bound)
      from Some m body obtain out idx' where
        r: "regex_loop' pat full (drop (idx + e) full) (idx + e) = Some (out, idx')"
        and y: "y = (g # out, idx')"
        by (auto simp: Option.bind_eq_Some_conv)
      from IH[OF r] w e i have "idx + e \<le> idx' \<and> idx' \<le> length full" by simp
      with y show ?thesis by simp
    qed
  qed
qed


lemma partition_regex_state:
  "partition_regex pat self unseen = Some (out, self') \<Longrightarrow>
   full_response self' = full_response self \<and>
   regex_loop pat (full_response self) unseen (printed_idx self) = Some (out, printed_idx self')"
  by (auto simp: partition_regex_def)

lemma partition_bounds:
  assumes "offsets_in_window sp"
    and "printed_idx self \<le> length (full_response self)"
    and "partition sp self (drop (printed_idx self) (full_response self)) = Some (out, self')"
  shows "printed_idx self \<le> printed_idx self' \<and> printed_idx self' \<le> length (full_response self')
     \<and> full_response self' = full_response self"
proof (cases sp)
  case (RegexSplitter pat)
  with assms(3) have p: "partition_regex pat self (drop (printed_idx self) (full_response self)) = Some (out, self')"
    by simp
  from partition_regex_state[OF p] have f: "full_response self' = full_response self"
    and r: "regex_loop pat (full_response self) (drop (printed_idx self) (full_response self)) (printed_idx self)
            = Some (out, printed_idx self')" by simp_all
  from assms(1) RegexSplitter have w: "match_in_window pat" by simp
  from regex_loop_bounds[OF r] w assms(2) f show ?thesis by simp
next
  case (SentenceSplitter seg)
  let ?u = "drop (printed_idx self) (full_response self)"
  from assms(1) SentenceSplitter have w: "spans_in_window seg" by simp
  show ?thesis
  proof (cases "seg ?u = []")
    case True
    with assms(2,3) SentenceSplitter show ?thesis
      by (auto simp: partition_sentence_def Let_def)
  next
    case False
    with w have "start (last (seg ?u)) \<le> length ?u"
      unfolding spans_in_window_def by blast
    with False assms(2,3) SentenceSplitter show ?thesis
      by (auto simp: partition_sentence_def Let_def)
  qed
qed

lemma splitter_next_bounds:
  assumes "offsets_in_window sp"
    and "printed_idx self \<le> length (full_response self)"
    and "splitter_next sp self t = Some (out, self')"
  shows "printed_idx self \<le> printed_idx self' \<and> printed_idx self' \<le> length (full_response self')
     \<and> full_response self' = full_response self @ t"
proof (cases "END_OF_INPUT = t")
  case True
  with assms(2,3) show ?thesis
    by (auto simp: splitter_next_def Let_def END_OF_INPUT_def)
next
  case False
  let ?s1 = "self\<lparr>full_response := full_response self @ t\<rparr>"
  from False assms(3) have p: "partition sp ?s1 (drop (printed_idx ?s1) (full_response ?s1)) = Some (out, self')"
    by (simp add: splitter_next_def Let_def)
  from assms(2) have i: "printed_idx ?s1 \<le> length (full_response ?s1)" by simp
  from partition_bounds[OF assms(1) i p] show ?thesis by auto
qed

lemma splitter_next_returns:
  assumes "offsets_in_window sp" and "makes_progress sp"
  shows "\<exists>out self'. splitter_next sp self t = Some (out, self')"
proof (cases "END_OF_INPUT = t")
  case True
  then show ?thesis by (simp add: splitter_next_def Let_def)
next
  case False
  show ?thesis
  proof (cases sp)
    case (RegexSplitter pat)
    with assms have w: "match_in_window pat" and c: "consumes pat" by simp_all
    from regex_loop_total[OF w c] False RegexSplitter show ?thesis
      by (simp add: splitter_next_def Let_def partition_regex_def) metis
  next
    case (SentenceSplitter seg)
    with False show ?thesis
      by (cases "partition_sentence seg (self\<lparr>full_response := full_response self @ t\<rparr>)
            (drop (printed_idx self) (full_response self @ t))")
         (simp add: splitter_next_def Let_def)
  qed
qed

lemma feed_bounds:
  assumes "offsets_in_window sp"
  shows "printed_idx self \<le> length (full_response self) \<Longrightarrow> feed sp self toks = Some (outs, self') \<Longrightarrow>
    printed_idx self \<le> printed_idx self' \<and> printed_idx self' \<le> length (full_response self')
     \<and> full_response self' = full_response self @ concat toks"
proof (induction toks arbitrary: self outs)
  case Nil
  then show ?case by simp
next
  case (Cons t ts)
  from Cons.prems(2) obtain out mid outs' where
    s: "splitter_next sp self t = Some (out, mid)" and f: "feed sp mid ts = Some (outs', self')"
    by (auto split: option.splits)
  from splitter_next_bounds[OF assms Cons.prems(1) s]
  have b: "printed_idx self \<le> printed_idx mid" "printed_idx mid \<le> length (full_response mid)"
    "full_response mid = full_response self @ t" by blast+
  from Cons.IH[OF b(2) f] b show ?case by auto
qed

lemma feed_returns:
  assumes "offsets_in_window sp" and "makes_progress sp"
  shows "\<exists>outs self'. feed sp self toks = Some (outs, self')"
proof (induction toks arbitrary: self)
  case Nil
  show ?case by simp
next
  case (Cons t ts)
  from splitter_next_returns[OF assms] obtain out mid where
    s: "splitter_next sp self t = Some (out, mid)" by blast
  from Cons.IH[of mid] obtain outs self' where "feed sp mid ts = Some (outs, self')" by blast
  with s show ?case by simp
qed

text \<open>
  Claim C4. Starting from a splitter whose cursor lies within its text, after any sequence
  of calls of \<open>next\<close> that return the cursor has not decreased, it still lies within the
  text, and the text is the old text followed by the tokens fed. This needs that the
  libraries return offsets inside the window they were given. When, in addition, the
  pattern never matches the empty string, every call returns.
\<close>

theorem cursor_invariant:
  assumes "offsets_in_window sp" and "printed_idx self \<le> length (full_response self)"
  shows "(\<forall>outs self'. feed sp self toks = Some (outs, self') \<longrightarrow>
            printed_idx self \<le> printed_idx self' \<and>
            printed_idx self' \<le> length (full_response self') \<and>
            full_response self' = full_response self @ concat toks)
       \<and> (makes_progress sp \<longrightarrow> (\<exists>outs self'. feed sp self toks = Some (outs, self')))"
  using feed_bounds[OF assms(1) assms(2)] feed_returns[OF assms(1)] by blast

text \<open>
  Claim C9. When every match of the pattern consumes at least one character (and ends
  inside the window), \<open>RegexSplitter.partition\<close> returns for every window, and the cursor
  has advanced by at least one for every unit yielded. When the pattern matches the empty
  string at the start of the unseen window, the loop never ends.
\<close>

theorem regex_partition_termination:
  "(match_in_window pat \<and> consumes pat \<longrightarrow>
      (\<exists>out self'. partition_regex pat self unseen = Some (out, self') \<and>
                    printed_idx self + length out \<le> printed_idx self'))
   \<and> ((\<exists>g. pat (drop (printed_idx self) (full_response self)) = Some (g, 0)) \<longrightarrow>
        partition_regex pat self (drop (printed_idx self) (full_response self)) = None)"
proof (intro conjI impI)
  assume "match_in_window pat \<and> consumes pat"
  then have w: "match_in_window pat" and c: "consumes pat" by simp_all
  from regex_loop_total[OF w c, of "full_response self" unseen "printed_idx self"]
  show "\<exists>out self'. partition_regex pat self unseen = Some (out, self') \<and>
                    printed_idx self + length out \<le> printed_idx self'"
    by (auto simp: partition_regex_def)
next
  assume "\<exists>g. pat (drop (printed_idx self) (full_response self)) = Some (g, 0)"
  then obtain g where "pat (drop (printed_idx self) (full_response self)) = Some (g, 0)" by blast
  from regex_loop_empty_match[of pat "printed_idx self" "full_response self" g, OF this]
  show "partition_regex pat self (drop (printed_idx self) (full_response self)) = None"
    by (simp add: partition_regex_def)
qed

lemma line_pattern_in_window: "match_in_window line_pattern"
  by (auto simp: match_in_window_def line_pattern_def Let_def split: if_splits)

lemma line_pattern_consumes: "consumes line_pattern"
  by (auto simp: consumes_def line_pattern_def Let_def split: if_splits)

text \<open>
  Claim C6. A splitter with the pattern \<open>(.*?)\n\<close>, fed \<open>"Hello"\<close>, \<open>" world\n"\<close>,
  \<open>"Bye\n"\<close> and then the marker, yields nothing on the first call, \<open>"Hello world"\<close>
  on the second, \<open>"Bye"\<close> on the third and nothing on the last one, where the window
  is empty.
\<close>

theorem delimiter_example:
  "feed (RegexSplitter line_pattern) new_splitter
     [''Hello'', '' world'' @ [newline], ''Bye'' @ [newline], END_OF_INPUT]
   = Some ([[], [''Hello world''], [''Bye''], []],
           \<lparr>printed_idx = 16, full_response = ''Hello world'' @ [newline] @ ''Bye'' @ [newline]\<rparr>)"
  by code_simp

text \<open>
  Claim C5. Called with the marker on a splitter whose cursor lies within the text,
  \<open>next\<close> returns; it yields the unseen window as one unit when the window is not empty
  after \<open>strip()\<close> and nothing otherwise; the text is unchanged and the cursor ends at
  the length of the text. When everything had been emitted already, nothing is yielded and
  the splitter is unchanged.
\<close>

theorem end_of_input_flush:
  assumes "printed_idx self \<le> length (full_response self)"
  shows "\<exists>out self'. splitter_next sp self END_OF_INPUT = Some (out, self') \<and>
           out = (if strip (drop (printed_idx self) (full_response self)) \<noteq> []
                  then [drop (printed_idx self) (full_response self)] else []) \<and>
           full_response self' = full_response self \<and>
           printed_idx self' = length (full_response self') \<and>
           (printed_idx self = length (full_response self) \<longrightarrow> out = [] \<and> self' = self)"
  using assms by (simp add: splitter_next_def END_OF_INPUT_def strip_def)

theorem end_of_input_flush_witness:
  "printed_idx \<lparr>printed_idx = 3, full_response = ''ab cd ''\<rparr> \<le> length (full_response \<lparr>printed_idx = 3, full_response = ''ab cd ''\<rparr>)
   \<and> splitter_next (RegexSplitter line_pattern) \<lparr>printed_idx = 3, full_response = ''ab cd ''\<rparr> END_OF_INPUT
       = Some ([''cd ''], \<lparr>printed_idx = 6, full_response = ''ab cd ''\<rparr>)
   \<and> splitter_next (RegexSplitter line_pattern) \<lparr>printed_idx = 6, full_response = ''ab cd ''\<rparr> END_OF_INPUT
       = Some ([], \<lparr>printed_idx = 6, full_response = ''ab cd ''\<rparr>)"
proof -
  let ?a = "\<lparr>printed_idx = 3, full_response = ''ab cd ''\<rparr>"
  let ?b = "\<lparr>printed_idx = 6, full_response = ''ab cd ''\<rparr>"
  have ha: "printed_idx ?a \<le> length (full_response ?a)" by simp
  have hb: "printed_idx ?b \<le> length (full_response ?b)" by simp
  have s: "strip ''cd '' \<noteq> []" by (simp add: strip_def isspace_def)
  from end_of_input_flush[OF ha, of "RegexSplitter line_pattern"] s
  have 1: "splitter_next (RegexSplitter line_pattern) ?a END_OF_INPUT = Some ([''cd ''], ?b)"
    by auto
  from end_of_input_flush[OF hb, of "RegexSplitter line_pattern"]
  have 2: "splitter_next (RegexSplitter line_pattern) ?b END_OF_INPUT = Some ([], ?b)"
    by auto
  from ha 1 2 show ?thesis by blast
qed

text \<open>
  Claim C1 as stated fails for the empty token, which is the marker itself: on the text
  \<open>"Hi"\<close> with the cursor at 0, \<open>next("")\<close> yields \<open>"Hi"\<close> and moves the cursor to 2,
  while \<open>partition\<close> on the same window yields nothing and leaves the cursor at 0.
\<close>

theorem empty_token_flushes:
  "splitter_next (RegexSplitter line_pattern) \<lparr>printed_idx = 0, full_response = ''Hi''\<rparr> []
     = Some ([''Hi''], \<lparr>printed_idx = 2, full_response = ''Hi''\<rparr>)
   \<and> partition (RegexSplitter line_pattern) \<lparr>printed_idx = 0, full_response = ''Hi'' @ []\<rparr>
        (drop 0 (''Hi'' @ []))
     = Some ([], \<lparr>printed_idx = 0, full_response = ''Hi''\<rparr>)"
  by code_simp

lemma request_by_token_shape:
  "request_by_token events = (toks, e) \<Longrightarrow>
     (e = Finished \<longrightarrow> (\<exists>ys. toks = ys @ [END_OF_INPUT] \<and> END_OF_INPUT \<notin> set ys)) \<and>
     (e \<noteq> Finished \<longrightarrow> END_OF_INPUT \<notin> set toks)"
proof (induction events arbitrary: toks e rule: request_by_token.induct)
  case 1
  then show ?case by simp
next
  case (2 events)
  then show ?case by simp
next
  case (3 tx finish_reason events)
  show ?case
  proof (cases "finish_reason \<noteq> None")
    case True
    with 3(2) have e: "e = Finished"
      and t: "toks = (if tx \<noteq> END_OF_INPUT then [tx] else []) @ [END_OF_INPUT]"
      by (simp_all add: Let_def)
    have "END_OF_INPUT \<notin> set (if tx \<noteq> END_OF_INPUT then [tx] else [])" by simp
    with e t show ?thesis by blast
  next
    case False
    obtain rest e' where r: "request_by_token events = (rest, e')"
      by (cases "request_by_token events")
    with False 3(2) have e: "e = e'"
      and t: "toks = (if tx \<noteq> END_OF_INPUT then [tx] else []) @ rest"
      by (simp_all add: Let_def)
    have y: "END_OF_INPUT \<notin> set (if tx \<noteq> END_OF_INPUT then [tx] else [])" by simp
    from 3(1)[OF refl False r]
    have ih: "(e' = Finished \<longrightarrow> (\<exists>ys. rest = ys @ [END_OF_INPUT] \<and> END_OF_INPUT \<notin> set ys)) \<and>
              (e' \<noteq> Finished \<longrightarrow> END_OF_INPUT \<notin> set rest)" .
    show ?thesis
    proof (cases "e' = Finished")
      case True
      with ih obtain ys where "rest = ys @ [END_OF_INPUT]" "END_OF_INPUT \<notin> set ys" by blast
      with t y have "toks = ((if tx \<noteq> END_OF_INPUT then [tx] else []) @ ys) @ [END_OF_INPUT]
          \<and> END_OF_INPUT \<notin> set ((if tx \<noteq> END_OF_INPUT then [tx] else []) @ ys)"
        by auto
      with e True show ?thesis by blast
    next
      case False
      with ih y t e show ?thesis by auto
    qed
  qed
qed

lemma request_by_token_marker_last:
  assumes "request_by_token events = (toks, e)" and "i < length toks"
  shows "toks ! i = END_OF_INPUT \<longleftrightarrow> e = Finished \<and> Suc i = length toks"
proof (cases "e = Finished")
  case True
  with request_by_token_shape[OF assms(1)] obtain ys where
    t: "toks = ys @ [END_OF_INPUT]" and n: "END_OF_INPUT \<notin> set ys" by blast
  show ?thesis
  proof (cases "i < length ys")
    case True
    with n have "ys ! i \<noteq> END_OF_INPUT" by (metis nth_mem)
    with True t \<open>e = Finished\<close> show ?thesis by (simp add: nth_append)
  next
    case False
    with assms(2) t have "i = length ys" by simp
    with t \<open>e = Finished\<close> show ?thesis by simp
  qed
next
  case False
  with request_by_token_shape[OF assms(1)] have "END_OF_INPUT \<notin> set toks" by blast
  with assms(2) have "toks ! i \<noteq> END_OF_INPUT" by (metis nth_mem)
  with False show ?thesis by simp
qed

text \<open>
  Claim C1, amended. For a token that is not the empty string, \<open>next\<close> appends the token
  and is exactly \<open>partition\<close> on the unseen window of the extended text. The empty string
  is the marker: it takes the flush path. The producer keeps the two apart: among the
  tokens that \<open>request_by_token\<close> yields, for any events, the empty string stands only at
  the last place of a stream that finished, where it is the marker; no text it yields is
  empty.
\<close>

theorem next_dispatch:
  "(new_token \<noteq> [] \<longrightarrow>
      splitter_next sp self new_token =
        partition sp (self\<lparr>full_response := full_response self @ new_token\<rparr>)
          (drop (printed_idx self) (full_response self @ new_token)))
   \<and> (new_token = [] \<longrightarrow>
      splitter_next sp self new_token =
        Some ((if strip (drop (printed_idx self) (full_response self)) \<noteq> []
               then [drop (printed_idx self) (full_response self)] else []),
              self\<lparr>printed_idx := printed_idx self + length (drop (printed_idx self) (full_response self))\<rparr>))
   \<and> (\<forall>i < length (fst (request_by_token events)).
         fst (request_by_token events) ! i = []
           \<longleftrightarrow> snd (request_by_token events) = Finished
               \<and> Suc i = length (fst (request_by_token events)))"
proof (intro conjI allI impI)
  fix i assume "i < length (fst (request_by_token events))"
  with request_by_token_marker_last[of events "fst (request_by_token events)" "snd (request_by_token events)" i]
  show "fst (request_by_token events) ! i = []
           \<longleftrightarrow> snd (request_by_token events) = Finished
               \<and> Suc i = length (fst (request_by_token events))"
    by (simp add: END_OF_INPUT_def)
qed (auto simp: splitter_next_def END_OF_INPUT_def Let_def)

theorem next_dispatch_witness:
  "''lo'' @ [newline] \<noteq> [] \<and>
   splitter_next (RegexSplitter line_pattern) \<lparr>printed_idx = 0, full_response = ''Hel''\<rparr> (''lo'' @ [newline])
     = Some ([''Hello''], \<lparr>printed_idx = 6, full_response = ''Hello'' @ [newline]\<rparr>)
   \<and> splitter_next (RegexSplitter line_pattern) \<lparr>printed_idx = 0, full_response = ''Hel''\<rparr> []
     = Some ([''Hel''], \<lparr>printed_idx = 3, full_response = ''Hel''\<rparr>)
   \<and> request_by_token [Payload [] None, Payload ''a'' None, Payload [] (Some ''stop'')]
     = ([''a'', []], Finished)
   \<and> (0::nat) < length (fst (request_by_token [Payload [] None, Payload ''a'' None, Payload [] (Some ''stop'')]))
   \<and> fst (request_by_token [Payload [] None, Payload ''a'' None, Payload [] (Some ''stop'')]) ! 0 \<noteq> []"
proof -
  let ?s = "\<lparr>printed_idx = 0, full_response = ''Hel''\<rparr>"
  let ?ev = "[Payload [] None, Payload ''a'' None, Payload [] (Some ''stop'')]"
  have p: "partition (RegexSplitter line_pattern) (?s\<lparr>full_response := full_response ?s @ ''lo'' @ [newline]\<rparr>)
          (drop (printed_idx ?s) (full_response ?s @ ''lo'' @ [newline]))
        = Some ([''Hello''], \<lparr>printed_idx = 6, full_response = ''Hello'' @ [newline]\<rparr>)"
    by code_simp
  have s: "strip ''Hel'' \<noteq> []" by (simp add: strip_def isspace_def)
  have r: "request_by_token ?ev = ([''a'', []], Finished)" by (simp add: END_OF_INPUT_def)
  then have l: "(0::nat) < length (fst (request_by_token ?ev))" by simp
  from next_dispatch[of "''lo'' @ [newline]" "RegexSplitter line_pattern" ?s ?ev] p
  have 1: "splitter_next (RegexSplitter line_pattern) ?s (''lo'' @ [newline])
     = Some ([''Hello''], \<lparr>printed_idx = 6, full_response = ''Hello'' @ [newline]\<rparr>)"
    by simp
  from next_dispatch[of "[]" "RegexSplitter line_pattern" ?s ?ev] s
  have 2: "splitter_next (RegexSplitter line_pattern) ?s [] = Some ([''Hel''], \<lparr>printed_idx = 3, full_response = ''Hel''\<rparr>)"
    by simp
  from next_dispatch[of "[]" "RegexSplitter line_pattern" ?s ?ev] l
  have "fst (request_by_token ?ev) ! 0 = []
          \<longleftrightarrow> snd (request_by_token ?ev) = Finished \<and> Suc 0 = length (fst (request_by_token ?ev))"
    by blast
  with r have 3: "fst (request_by_token ?ev) ! 0 \<noteq> []" by simp
  from 1 2 3 r l show ?thesis by simp
qed

lemma strip_newline_cases:
  "if endswith_newline s then s = strip_newline s @ [newline] else strip_newline s = s"
proof (cases "endswith_newline s")
  case True
  then have "s \<noteq> []" and "last s = newline" by (simp_all add: endswith_newline_def)
  then have "butlast s @ [newline] = s" by (metis append_butlast_last_id)
  with True show ?thesis by (simp add: strip_newline_def)
next
  case False
  then show ?thesis by (simp add: strip_newline_def)
qed

text \<open>
  Claim C7. \<open>SentenceSplitter.partition\<close> yields one string for each span but the last, in
  the order of the spans; each is the sentence of its span, without its final line feed when
  it ends with one and unchanged otherwise. The text is untouched and the cursor moves by
  the start of the last span, or not at all when there is no span.
\<close>

theorem sentence_partition_emits:
  assumes "partition_sentence seg self unseen = (out, self')"
  shows "length out = length (seg unseen) - 1 \<and>
     (\<forall>i < length out.
        if endswith_newline (sent (seg unseen ! i))
        then sent (seg unseen ! i) = out ! i @ [newline]
        else out ! i = sent (seg unseen ! i)) \<and>
     full_response self' = full_response self \<and>
     printed_idx self' = printed_idx self + (if seg unseen = [] then 0 else start (last (seg unseen)))"
proof -
  from assms have o: "out = map (\<lambda>sp. strip_newline (sent sp)) (butlast (seg unseen))"
    by (auto simp: partition_sentence_def Let_def split: if_splits)
  have "\<forall>i < length out.
        if endswith_newline (sent (seg unseen ! i))
        then sent (seg unseen ! i) = out ! i @ [newline]
        else out ! i = sent (seg unseen ! i)"
  proof (intro allI impI)
    fix i assume "i < length out"
    with o have "out ! i = strip_newline (sent (seg unseen ! i))"
      by (simp add: nth_butlast)
    with strip_newline_cases[of "sent (seg unseen ! i)"]
    show "if endswith_newline (sent (seg unseen ! i))
        then sent (seg unseen ! i) = out ! i @ [newline]
        else out ! i = sent (seg unseen ! i)" by simp
  qed
  moreover from o have "length out = length (seg unseen) - 1" by simp
  moreover from assms have "full_response self' = full_response self \<and>
     printed_idx self' = printed_idx self + (if seg unseen = [] then 0 else start (last (seg unseen)))"
    by (auto simp: partition_sentence_def Let_def split: if_splits)
  ultimately show ?thesis by blast
qed

theorem sentence_partition_emits_witness:
  "partition_sentence two_spans \<lparr>printed_idx = 2, full_response = ''A.Hi. '' @ [newline] @ ''Yo'' @ [newline]\<rparr>
      (''Hi. '' @ [newline] @ ''Yo'' @ [newline])
    = ([''Hi. ''], \<lparr>printed_idx = 7, full_response = ''A.Hi. '' @ [newline] @ ''Yo'' @ [newline]\<rparr>)
   \<and> length [''Hi. ''] = length (two_spans (''Hi. '' @ [newline] @ ''Yo'' @ [newline])) - 1
   \<and> sent (two_spans (''Hi. '' @ [newline] @ ''Yo'' @ [newline]) ! 0) = [''Hi. ''] ! 0 @ [newline]"
proof -
  let ?self = "\<lparr>printed_idx = 2, full_response = ''A.Hi. '' @ [newline] @ ''Yo'' @ [newline]\<rparr>"
  let ?u = "''Hi. '' @ [newline] @ ''Yo'' @ [newline]"
  let ?self' = "\<lparr>printed_idx = 7, full_response = ''A.Hi. '' @ [newline] @ ''Yo'' @ [newline]\<rparr>"
  have e: "partition_sentence two_spans ?self ?u = ([''Hi. ''], ?self')"
    by (simp add: partition_sentence_def two_spans_def strip_newline_def endswith_newline_def)
  have n: "endswith_newline (sent (two_spans ?u ! 0))"
    by (simp add: two_spans_def endswith_newline_def)
  from sentence_partition_emits[OF e] n e show ?thesis by simp
qed

theorem cursor_invariant_witness:
  "offsets_in_window (RegexSplitter line_pattern) \<and>
   printed_idx new_splitter \<le> length (full_response new_splitter) \<and>
   makes_progress (RegexSplitter line_pattern) \<and>
   (\<exists>outs self'. feed (RegexSplitter line_pattern) new_splitter [''Hello'', '' world'' @ [newline], ''Bye''] = Some (outs, self')
      \<and> printed_idx self' \<le> length (full_response self')
      \<and> full_response self' = ''Hello world'' @ [newline] @ ''Bye'')"
proof -
  have o: "offsets_in_window (RegexSplitter line_pattern)" by (simp add: line_pattern_in_window)
  have i: "printed_idx new_splitter \<le> length (full_response new_splitter)" by (simp add: new_splitter_def)
  have m: "makes_progress (RegexSplitter line_pattern)" by (simp add: line_pattern_consumes)
  have f: "full_response new_splitter @ concat [''Hello'', '' world'' @ [newline], ''Bye''] = ''Hello world'' @ [newline] @ ''Bye''"
    by (simp add: new_splitter_def)
  from cursor_invariant[OF o i, of "[''Hello'', '' world'' @ [newline], ''Bye'']"] m
  have "\<exists>outs self'. feed (RegexSplitter line_pattern) new_splitter [''Hello'', '' world'' @ [newline], ''Bye''] = Some (outs, self')
      \<and> printed_idx self' \<le> length (full_response self')
      \<and> full_response self' = full_response new_splitter @ concat [''Hello'', '' world'' @ [newline], ''Bye'']"
    by blast
  with o i m f show ?thesis by simp
qed

theorem regex_partition_termination_witness:
  "match_in_window line_pattern \<and> consumes line_pattern \<and>
   (\<exists>out self'. partition_regex line_pattern \<lparr>printed_idx = 0, full_response = ''a'' @ [newline] @ ''b''\<rparr> (''a'' @ [newline] @ ''b'') = Some (out, self'))
   \<and> empty_pattern (drop (printed_idx \<lparr>printed_idx = 0, full_response = ''ab''\<rparr>) (full_response \<lparr>printed_idx = 0, full_response = ''ab''\<rparr>)) = Some ([], 0)
   \<and> partition_regex empty_pattern \<lparr>printed_idx = 0, full_response = ''ab''\<rparr> ''ab'' = None"
proof -
  let ?s = "\<lparr>printed_idx = 0, full_response = ''ab''\<rparr>"
  have e: "\<exists>g. empty_pattern (drop (printed_idx ?s) (full_response ?s)) = Some (g, 0)"
    by (simp add: empty_pattern_def)
  from regex_partition_termination[of line_pattern "\<lparr>printed_idx = 0, full_response = ''a'' @ [newline] @ ''b''\<rparr>" "''a'' @ [newline] @ ''b''"]
    line_pattern_in_window line_pattern_consumes
  have 1: "\<exists>out self'. partition_regex line_pattern \<lparr>printed_idx = 0, full_response = ''a'' @ [newline] @ ''b''\<rparr> (''a'' @ [newline] @ ''b'') = Some (out, self')"
    by blast
  from regex_partition_termination[of empty_pattern ?s] e
  have 2: "partition_regex empty_pattern ?s ''ab'' = None" by simp
  from 1 2 line_pattern_in_window line_pattern_consumes show ?thesis
    by (simp add: empty_pattern_def)
qed

section \<open>Properties of the token stream and of the batching\<close>

lemma grouped_loop_concat:
  "END_OF_INPUT \<notin> set ts \<Longrightarrow>
   concat (grouped_loop fadd clk interval (ts @ END_OF_INPUT # later) k tokens last_response) = tokens @ concat ts"
proof (induction ts arbitrary: k tokens last_response)
  case Nil
  show ?case by simp
next
  case (Cons t ts)
  then have t: "t \<noteq> END_OF_INPUT" and ts: "END_OF_INPUT \<notin> set ts" by auto
  show ?case
  proof (cases "clk k < fadd last_response interval")
    case True
    with t Cons.IH[OF ts, of "k + 1" "tokens @ t" last_response] show ?thesis
      by (simp add: Let_def)
  next
    case False
    with t Cons.IH[OF ts, of "k + 2" "[]" "clk (k + 1)"] show ?thesis
      by (simp add: Let_def)
  qed
qed

lemma grouped_loop_final:
  "END_OF_INPUT \<notin> set ts \<Longrightarrow>
   \<exists>fin. grouped_loop fadd clk interval (ts @ END_OF_INPUT # later) k tokens last_response
           = grouped_loop fadd clk interval ts k tokens last_response @ fin
         \<and> length fin \<le> 1 \<and> [] \<notin> set fin"
proof (induction ts arbitrary: k tokens last_response)
  case Nil
  show ?case by simp
next
  case (Cons t ts)
  then have t: "t \<noteq> END_OF_INPUT" and ts: "END_OF_INPUT \<notin> set ts" by auto
  show ?case
  proof (cases "clk k < fadd last_response interval")
    case True
    with t Cons.IH[OF ts, of "k + 1" "tokens @ t" last_response] show ?thesis
      by (simp add: Let_def)
  next
    case False
    with t Cons.IH[OF ts, of "k + 2" "[]" "clk (k + 1)"] show ?thesis
      by (simp add: Let_def)
  qed
qed

lemma grouped_loop_prefix:
  "\<exists>tail. concat (grouped_loop fadd clk interval ts k tokens last_response) @ tail = tokens @ concat (takeWhile (\<lambda>t. t \<noteq> END_OF_INPUT) ts)"
proof (induction ts arbitrary: k tokens last_response)
  case Nil
  show ?case by simp
next
  case (Cons t ts)
  show ?case
  proof (cases "t = END_OF_INPUT")
    case True
    then show ?thesis by simp
  next
    case t: False
    show ?thesis
    proof (cases "clk k < fadd last_response interval")
      case True
      with t Cons.IH[of "k + 1" "tokens @ t" last_response] show ?thesis
        by (simp add: Let_def)
    next
      case False
      with t Cons.IH[of "k + 2" "[]" "clk (k + 1)"] show ?thesis
        by (simp add: Let_def)
    qed
  qed
qed

text \<open>
  Claim C8 as stated fails on a stream without the marker, which \<open>request_by_token\<close>
  delivers when the events run out before a finish reason: the token \<open>"a"\<close>, arrived
  inside the first interval, stays in the buffer and no batch is yielded.
\<close>

theorem markerless_stream_loses_text:
  "fst (request_by_token [Payload ''a'' None]) = [''a'']
   \<and> concat (request_as_grouped_tokens (rounded_add grid_round) (\<lambda>k. 0) 100
        (fst (request_by_token [Payload ''a'' None])))
     \<noteq> concat (filter (\<lambda>t. t \<noteq> END_OF_INPUT) (fst (request_by_token [Payload ''a'' None])))"
  by (simp add: request_as_grouped_tokens_def rounded_add_def grid_round_def END_OF_INPUT_def)

text \<open>
  Claim C8, amended. For every clock, every interval and every addition of times, on a
  stream of non-empty tokens followed by the marker, the batches yielded, concatenated in
  order, are the tokens before the marker concatenated in order; and they are the batches
  yielded for the tokens alone, followed by at most one more batch, which is not empty:
  the one yielded on the marker. Without the marker the batches, concatenated, are a
  prefix of the text of the tokens.
\<close>

theorem batches_cover_stream:
  assumes "END_OF_INPUT \<notin> set ts"
  shows "concat (request_as_grouped_tokens fadd clk interval (ts @ END_OF_INPUT # later)) = concat ts
     \<and> (\<exists>fin. request_as_grouped_tokens fadd clk interval (ts @ END_OF_INPUT # later)
                 = request_as_grouped_tokens fadd clk interval ts @ fin
               \<and> length fin \<le> 1 \<and> [] \<notin> set fin)
     \<and> (\<exists>tail. concat (request_as_grouped_tokens fadd clk interval ts) @ tail = concat ts)"
proof -
  from assms have tw: "takeWhile (\<lambda>t. t \<noteq> END_OF_INPUT) ts = ts"
    by (auto simp: takeWhile_eq_all_conv)
  show ?thesis
    unfolding request_as_grouped_tokens_def
    using grouped_loop_concat[OF assms, of fadd clk interval later 1 "[]" "clk 0"]
      grouped_loop_final[OF assms, of fadd clk interval later 1 "[]" "clk 0"]
      grouped_loop_prefix[of fadd clk interval ts 1 "[]" "clk 0"] tw
    by simp
qed

theorem batches_cover_stream_witness:
  "END_OF_INPUT \<notin> set [''a'', ''b'', ''c'', ''d'', ''e''] \<and>
   concat (request_as_grouped_tokens (rounded_add grid_round) (example_clock 0 150) 100
      ([''a'', ''b'', ''c'', ''d'', ''e''] @ END_OF_INPUT # [])) = ''abcde''"
proof -
  have h: "END_OF_INPUT \<notin> set [''a'', ''b'', ''c'', ''d'', ''e'']" by (simp add: END_OF_INPUT_def)
  from batches_cover_stream[OF h, of "rounded_add grid_round" "example_clock 0 150" 100 "[]"] h
  show ?thesis by simp
qed

lemma grid_round_monotone: "monotone_rounding grid_round"
  unfolding monotone_rounding_def grid_round_def
  by (auto intro!: divide_right_mono floor_mono)

lemma grid_round_int: "grid_round (of_int n) = of_int n"
proof -
  have "\<lfloor>real_of_int n * 1024 + 1 / 2\<rfloor> = n * 1024" by linarith
  then show ?thesis by (simp add: grid_round_def)
qed

lemma window_bounds:
  assumes m: "monotone_rounding rnd" and a: "rnd 91 = 91" and b: "rnd 100 = 100"
    and lo: "- 9 \<le> s" and hi: "s \<le> 0"
  shows "91 \<le> rounded_add rnd s 100 \<and> rounded_add rnd s 100 \<le> 100"
proof -
  from lo have "91 \<le> s + 100" by simp
  with m have "rnd 91 \<le> rnd (s + 100)" unfolding monotone_rounding_def by blast
  moreover from hi have "s + 100 \<le> 100" by simp
  with m have "rnd (s + 100) \<le> rnd 100" unfolding monotone_rounding_def by blast
  ultimately show ?thesis using a b by (simp add: rounded_add_def)
qed

text \<open>
  Whatever the time the request started at and whatever the clock shows later: if the
  batches are \<open>"abcd"\<close> and \<open>"e"\<close>, the request started before \<open>-9\<close>, so the batch
  \<open>"abcd"\<close> left when \<open>"d"\<close> arrived, at time 90.
\<close>

lemma claimed_batches_need_early_start:
  assumes m: "monotone_rounding rnd" and a: "rnd 91 = 91"
    and out: "request_as_grouped_tokens (rounded_add rnd) (example_clock s r) 100
                [''a'', ''b'', ''c'', ''d'', ''e'', END_OF_INPUT] = [''abcd'', ''e'']"
  shows "s < - 9"
proof (rule ccontr)
  assume "\<not> s < - 9"
  then have "91 \<le> s + 100" by simp
  with m have "rnd 91 \<le> rnd (s + 100)" unfolding monotone_rounding_def by blast
  with a have w: "91 \<le> rounded_add rnd s 100" by (simp add: rounded_add_def)
  then have "request_as_grouped_tokens (rounded_add rnd) (example_clock s r) 100
      [''a'', ''b'', ''c'', ''d'', ''e'', END_OF_INPUT] = [''abcde'']"
    by (simp add: request_as_grouped_tokens_def example_clock_def END_OF_INPUT_def Let_def)
  with out show False by simp
qed

text \<open>
  Claim C2 as stated fails: with the request started at time 0, where the sum
  \<open>0 + 100\<close> is exact, the batches are not \<open>"abcd"\<close> and \<open>"e"\<close>.
\<close>

theorem batching_example_fails:
  "request_as_grouped_tokens (rounded_add grid_round) (example_clock 0 150) 100
      [''a'', ''b'', ''c'', ''d'', ''e'', END_OF_INPUT]
     \<noteq> [''abcd'', ''e'']"
  by (simp add: request_as_grouped_tokens_def example_clock_def END_OF_INPUT_def
      rounded_add_def grid_round_def)

text \<open>
  Claim C2, amended. The clock is only read when a token arrives, after the token has
  been added to the buffer. With the request started at a time in \<open>[-9, 0]\<close> and a
  floating-point addition whose rounding is monotone and leaves 91 and 100 unchanged, the
  tokens at 0, 30, 60 and 90 are buffered and release nothing, the token \<open>"e"\<close> at 150
  releases the single batch \<open>"abcde"\<close>, and the marker, finding the buffer empty, adds
  nothing.
\<close>

theorem batching_example:
  assumes "monotone_rounding rnd" and "rnd 91 = 91" and "rnd 100 = 100"
    and "- 9 \<le> s" and "s \<le> 0"
  shows "request_as_grouped_tokens (rounded_add rnd) (example_clock s r) 100
            [''a'', ''b'', ''c'', ''d'', ''e'', END_OF_INPUT] = [''abcde'']
       \<and> request_as_grouped_tokens (rounded_add rnd) (example_clock s r) 100
            [''a'', ''b'', ''c'', ''d''] = []
       \<and> request_as_grouped_tokens (rounded_add rnd) (example_clock s r) 100
            [''a'', ''b'', ''c'', ''d'', ''e''] = [''abcde'']"
  using window_bounds[OF assms]
  by (simp add: request_as_grouped_tokens_def example_clock_def END_OF_INPUT_def)

theorem batching_example_witness:
  "monotone_rounding grid_round \<and> grid_round 91 = 91 \<and> grid_round 100 = 100 \<and>
   - 9 \<le> (0::real) \<and> (0::real) \<le> 0 \<and>
   request_as_grouped_tokens (rounded_add grid_round) (example_clock 0 150) 100
      [''a'', ''b'', ''c'', ''d'', ''e'', END_OF_INPUT] = [''abcde'']"
proof -
  have a: "grid_round 91 = 91" using grid_round_int[of 91] by simp
  have b: "grid_round 100 = 100" using grid_round_int[of 100] by simp
  have lo: "- 9 \<le> (0::real)" and hi: "(0::real) \<le> 0" by simp_all
  from batching_example[OF grid_round_monotone a b lo hi, of 150] grid_round_monotone a b
  show ?thesis by simp
qed

text \<open>
  Claim C3 as stated fails: an event whose text is empty yields nothing.
\<close>

theorem raw_mode_drops_empty_delta:
  "fst (request_by_token [Payload [] None, Payload ''a'' (Some ''stop'')]) \<noteq> [[], ''a''] @ [END_OF_INPUT]"
  by (simp add: END_OF_INPUT_def)

lemma request_by_token_running:
  "request_by_token (map (\<lambda>t. Payload t None) texts @ events) =
     (filter (\<lambda>t. t \<noteq> []) texts @ fst (request_by_token events), snd (request_by_token events))"
  by (induction texts) (auto simp: END_OF_INPUT_def Let_def split: prod.splits)

lemma count_list_filtered: "count_list (filter (\<lambda>t. t \<noteq> x) xs) x = 0"
  by (induction xs) auto

text \<open>
  Claim C3, amended. On events without a finish reason followed by one with a finish
  reason, \<open>request_by_token\<close> yields the texts that are not empty, in order, the last
  event's included, and then the marker, which occurs exactly once in what is yielded;
  later events are not read. When the events run out without a finish reason, no marker
  is yielded.
\<close>

theorem raw_mode:
  "request_by_token (map (\<lambda>t. Payload t None) texts @ Payload text (Some reason) # later)
     = (filter (\<lambda>t. t \<noteq> []) (texts @ [text]) @ [END_OF_INPUT], Finished)
   \<and> count_list (fst (request_by_token (map (\<lambda>t. Payload t None) texts @ Payload text (Some reason) # later)))
        END_OF_INPUT = 1
   \<and> request_by_token (map (\<lambda>t. Payload t None) texts) = (filter (\<lambda>t. t \<noteq> []) texts, Exhausted)"
proof -
  have 1: "request_by_token (map (\<lambda>t. Payload t None) texts @ Payload text (Some reason) # later)
     = (filter (\<lambda>t. t \<noteq> []) (texts @ [text]) @ [END_OF_INPUT], Finished)"
    by (simp add: request_by_token_running END_OF_INPUT_def)
  have 2: "count_list (filter (\<lambda>t. t \<noteq> []) (texts @ [text]) @ [END_OF_INPUT]) END_OF_INPUT = 1"
    using count_list_filtered[of "[]" "texts @ [text]"] by (simp add: END_OF_INPUT_def del: filter_append)
  have 3: "request_by_token (map (\<lambda>t. Payload t None) texts) = (filter (\<lambda>t. t \<noteq> []) texts, Exhausted)"
    using request_by_token_running[of texts "[]"] by simp
  from 1 2 3 show ?thesis by simp
qed

section \<open>Properties of the template validation\<close>

lemma token_no_close: "CHR ''}'' \<notin> set (token_value a)"
  by (cases a) simp_all

lemma token_no_open: "CHR ''{'' \<notin> set (token_value a)"
  by (cases a) simp_all

lemma occurs_take:
  "occurs s i a \<longleftrightarrow> take (length (token_value a) + 2) (drop i s) = ''{'' @ token_value a @ ''}''"
  by (simp add: occurs_def slice_def)

lemma occurs_length: "occurs s i a \<Longrightarrow> i + length (token_value a) + 2 \<le> length s"
proof -
  assume "occurs s i a"
  then have "length (take (length (token_value a) + 2) (drop i s)) = length (''{'' @ token_value a @ ''}'')"
    by (simp only: occurs_take)
  then show ?thesis by simp
qed

lemma occurs_nth:
  assumes "occurs s i a" and "k < length (token_value a) + 2"
  shows "s ! (i + k) = (''{'' @ token_value a @ ''}'') ! k"
proof -
  from assms(1) have "(''{'' @ token_value a @ ''}'') ! k = take (length (token_value a) + 2) (drop i s) ! k"
    by (simp only: occurs_take)
  also from assms(2) have "\<dots> = drop i s ! k" by simp
  also from occurs_length[OF assms(1)] assms(2) have "\<dots> = s ! (i + k)" by simp
  finally show ?thesis by simp
qed

lemma occurs_open: "occurs s i a \<Longrightarrow> s ! i = CHR ''{''"
  using occurs_nth[of s i a 0] by simp

lemma occurs_close: "occurs s i a \<Longrightarrow> s ! (i + length (token_value a) + 1) = CHR ''}''"
  using occurs_nth[of s i a "length (token_value a) + 1"] by (simp add: nth_append add.assoc)

lemma occurs_inner:
  assumes "occurs s i a" and "k < length (token_value a)"
  shows "s ! (i + k + 1) = token_value a ! k"
  using occurs_nth[OF assms(1), of "k + 1"] assms(2) by (simp add: nth_append)

lemma occurs_same_length_le:
  assumes a: "occurs s i a" and b: "occurs s i b"
  shows "length (token_value b) \<le> length (token_value a)"
proof (rule ccontr)
  assume "\<not> length (token_value b) \<le> length (token_value a)"
  then have l: "length (token_value a) < length (token_value b)" by simp
  from occurs_inner[OF b l] occurs_close[OF a]
  have "token_value b ! length (token_value a) = CHR ''}''" by simp
  with l have "CHR ''}'' \<in> set (token_value b)" by (metis nth_mem)
  with token_no_close show False by blast
qed

lemma occurs_same_length:
  "occurs s i a \<Longrightarrow> occurs s i b \<Longrightarrow> length (token_value a) = length (token_value b)"
  using occurs_same_length_le[of s i a b] occurs_same_length_le[of s i b a] by simp

lemma first_allowed_None:
  "first_allowed s i al = None \<longleftrightarrow> \<not> begins_token s al i"
  by (induction al) (auto simp: begins_token_def occurs_def Let_def)

lemma first_allowed_Some:
  "first_allowed s i al = Some e \<Longrightarrow> \<exists>a \<in> set al. occurs s i a \<and> e = i + length (token_value a) + 1"
  by (induction al) (auto simp: occurs_def Let_def split: if_splits)

lemma open_braces_Inl:
  "open_braces s al is acc = Inl e \<Longrightarrow> e = ValueError \<and> (\<exists>i \<in> set is. first_allowed s i al = None)"
  by (induction "is" arbitrary: acc) (auto split: option.splits)

lemma open_braces_Inr:
  "open_braces s al is acc = Inr acc' \<Longrightarrow>
     acc' = acc \<union> {e. \<exists>i \<in> set is. first_allowed s i al = Some e} \<and>
     (\<forall>i \<in> set is. first_allowed s i al \<noteq> None)"
proof (induction "is" arbitrary: acc)
  case Nil
  then show ?case by simp
next
  case (Cons i "is")
  from Cons.prems obtain e where e: "first_allowed s i al = Some e"
    and r: "open_braces s al is (insert e acc) = Inr acc'"
    by (auto split: option.splits)
  from Cons.IH[OF r] e show ?case by auto
qed

lemma close_braces_Inl:
  "close_braces js acc = Inl e \<longleftrightarrow> e = ValueError \<and> (\<exists>j \<in> set js. j \<notin> acc)"
  by (induction js) auto

lemma close_braces_cases: "close_braces js acc = Inl ValueError \<or> close_braces js acc = Inr ()"
  by (induction js) auto

lemma set_find_all_ch: "set (find_all_ch s c) = {i. i < length s \<and> s ! i = c}"
  by (auto simp: find_all_ch_def)

lemma validate_cases:
  "validate_format_string s al = Inl ValueError \<or> validate_format_string s al = Inr ()"
proof (cases "open_braces s al (find_all_ch s CHR ''{'') {}")
  case (Inl e)
  with open_braces_Inl[OF Inl] show ?thesis by (simp add: validate_format_string_def)
next
  case (Inr acc)
  with close_braces_cases[of "find_all_ch s CHR ''}''" acc] show ?thesis
    by (simp add: validate_format_string_def)
qed

lemma validate_raises:
  "validate_format_string s al = Inl ValueError \<longleftrightarrow>
     (\<exists>i < length s. s ! i = CHR ''{'' \<and> \<not> begins_token s al i) \<or>
     (\<exists>j < length s. s ! j = CHR ''}'' \<and> \<not> ends_token s al j)"
proof (cases "open_braces s al (find_all_ch s CHR ''{'') {}")
  case (Inl e)
  from open_braces_Inl[OF Inl] have "e = ValueError"
    and "\<exists>i < length s. s ! i = CHR ''{'' \<and> \<not> begins_token s al i"
    by (auto simp: set_find_all_ch first_allowed_None)
  with Inl show ?thesis by (simp add: validate_format_string_def)
next
  case (Inr acc)
  from open_braces_Inr[OF Inr]
  have acc: "acc = {e. \<exists>i. i < length s \<and> s ! i = CHR ''{'' \<and> first_allowed s i al = Some e}"
    and all: "\<forall>i. i < length s \<and> s ! i = CHR ''{'' \<longrightarrow> first_allowed s i al \<noteq> None"
    by (auto simp: set_find_all_ch)
  from all have no_open: "\<not> (\<exists>i < length s. s ! i = CHR ''{'' \<and> \<not> begins_token s al i)"
    by (auto simp: first_allowed_None)
  have mem: "j \<in> acc \<longleftrightarrow> ends_token s al j" for j
  proof
    assume "j \<in> acc"
    with acc obtain i where "first_allowed s i al = Some j" by blast
    from first_allowed_Some[OF this] obtain a where "a \<in> set al" "occurs s i a"
      "j = i + length (token_value a) + 1" by blast
    then have "a \<in> set al \<and> length (token_value a) + 1 \<le> j \<and>
        occurs s (j - (length (token_value a) + 1)) a" by simp
    then show "ends_token s al j" unfolding ends_token_def by blast
  next
    assume "ends_token s al j"
    then obtain a where a: "a \<in> set al" "length (token_value a) + 1 \<le> j"
      "occurs s (j - (length (token_value a) + 1)) a" by (auto simp: ends_token_def)
    let ?i = "j - (length (token_value a) + 1)"
    from occurs_length[OF a(3)] have il: "?i < length s" by simp
    from occurs_open[OF a(3)] have io: "s ! ?i = CHR ''{''" .
    from all il io obtain e where e: "first_allowed s ?i al = Some e" by auto
    from first_allowed_Some[OF e] obtain b where b: "occurs s ?i b"
      "e = ?i + length (token_value b) + 1" by blast
    from occurs_same_length[OF a(3) b(1)] b(2) a(2) have "e = j" by simp
    with e acc il io show "j \<in> acc" by blast
  qed
  have "validate_format_string s al = Inl ValueError \<longleftrightarrow>
        (\<exists>j < length s. s ! j = CHR ''}'' \<and> \<not> ends_token s al j)"
    using Inr by (auto simp: validate_format_string_def close_braces_Inl set_find_all_ch mem)
  with no_open show ?thesis by blast
qed

lemma kwargs_token: "kwargs format_args (token_value a) = format_args a"
  by (cases a) (simp_all add: kwargs_def all_tokens_def)

lemma format_field:
  "format_loop kw None (''{'' @ token_value a @ ''}'' @ rest) =
     (case kw (token_value a) of None \<Rightarrow> Inl KeyError | Some v \<Rightarrow> emit v (format_loop kw None rest))"
  by (cases a) (simp_all add: is_digit_def)

lemma format_literal:
  "c \<noteq> CHR ''{'' \<Longrightarrow> c \<noteq> CHR ''}'' \<Longrightarrow>
   format_loop kw None (c # rest) = emit [c] (format_loop kw None rest)"
  by simp

lemma occurs_split:
  assumes "occurs s p a"
  shows "drop p s = ''{'' @ token_value a @ ''}'' @ drop (p + length (token_value a) + 2) s"
proof -
  have "drop p s = take (length (token_value a) + 2) (drop p s) @ drop (length (token_value a) + 2) (drop p s)"
    by (simp only: append_take_drop_id)
  with assms show ?thesis by (simp add: occurs_take add.commute add.left_commute)
qed

lemma boundary_after_token:
  assumes o: "occurs s p a"
    and b: "\<forall>i t. i < p \<and> occurs s i t \<longrightarrow> i + length (token_value t) + 2 \<le> p"
  shows "\<forall>i t. i < p + length (token_value a) + 2 \<and> occurs s i t
            \<longrightarrow> i + length (token_value t) + 2 \<le> p + length (token_value a) + 2"
proof (intro allI impI)
  fix i t
  assume h: "i < p + length (token_value a) + 2 \<and> occurs s i t"
  then have ot: "occurs s i t" by simp
  consider "i < p" | "i = p" | "p < i"  by linarith
  then show "i + length (token_value t) + 2 \<le> p + length (token_value a) + 2"
  proof cases
    case 1
    with b ot have "i + length (token_value t) + 2 \<le> p" by blast
    then show ?thesis by simp
  next
    case 2
    with occurs_same_length[OF o] ot show ?thesis by simp
  next
    case 3
    then obtain k where k: "i = p + k + 1" using less_imp_Suc_add by fastforce
    with h have kl: "k \<le> length (token_value a)" by simp
    from occurs_open[OF ot] k have open_at: "s ! (p + k + 1) = CHR ''{''" by simp
    show ?thesis
    proof (cases "k < length (token_value a)")
      case True
      from occurs_inner[OF o True] open_at have "token_value a ! k = CHR ''{''" by simp
      with True have "CHR ''{'' \<in> set (token_value a)" by (metis nth_mem)
      with token_no_open show ?thesis by blast
    next
      case False
      with kl have "k = length (token_value a)" by simp
      with occurs_close[OF o] open_at show ?thesis by (simp add: add.commute add.left_commute)
    qed
  qed
qed

lemma template_suffix:
  assumes V1: "\<forall>i < length s. s ! i = CHR ''{'' \<longrightarrow> begins_token s al i"
    and V2: "\<forall>j < length s. s ! j = CHR ''}'' \<longrightarrow> ends_token s al j"
  shows "p \<le> length s \<Longrightarrow>
     (\<forall>i t. i < p \<and> occurs s i t \<longrightarrow> i + length (token_value t) + 2 \<le> p) \<Longrightarrow>
     \<exists>parts. drop p s = concat (map part_text parts) \<and> list_all (part_ok al) parts \<and>
       (\<forall>format_args. set al \<subseteq> dom format_args \<longrightarrow>
          format_loop (kwargs format_args) None (drop p s)
            = Inr (concat (map (part_value format_args) parts)))"
proof (induction "length s - p" arbitrary: p rule: less_induct)
  case less
  show ?case
  proof (cases "p = length s")
    case True
    have "drop p s = concat (map part_text []) \<and> list_all (part_ok al) [] \<and>
       (\<forall>format_args. set al \<subseteq> dom format_args \<longrightarrow>
          format_loop (kwargs format_args) None (drop p s)
            = Inr (concat (map (part_value format_args) [])))"
      using True by simp
    then show ?thesis by blast
  next
    case False
    with less.prems(1) have pl: "p < length s" by simp
    then have d: "drop p s = s ! p # drop (Suc p) s" by (simp add: Cons_nth_drop_Suc)
    show ?thesis
    proof (cases "s ! p = CHR ''{''")
      case True
      with V1 pl obtain a where a: "a \<in> set al" and o: "occurs s p a"
        by (auto simp: begins_token_def)
      let ?p' = "p + length (token_value a) + 2"
      from occurs_length[OF o] have p'l: "?p' \<le> length s" .
      have m: "length s - ?p' < length s - p" using pl by simp
      from less.hyps[OF m p'l boundary_after_token[OF o less.prems(2)]]
      obtain parts where ps: "drop ?p' s = concat (map part_text parts)"
        and ok: "list_all (part_ok al) parts"
        and f: "\<forall>format_args. set al \<subseteq> dom format_args \<longrightarrow>
          format_loop (kwargs format_args) None (drop ?p' s)
            = Inr (concat (map (part_value format_args) parts))"
        by blast
      have 1: "drop p s = concat (map part_text (Field a # parts))"
        using occurs_split[OF o] ps by simp
      have 2: "list_all (part_ok al) (Field a # parts)" using a ok by simp
      have 3: "format_loop (kwargs format_args) None (drop p s)
            = Inr (concat (map (part_value format_args) (Field a # parts)))"
        if dom: "set al \<subseteq> dom format_args" for format_args
      proof -
        from dom a obtain v where v: "format_args a = Some v" by blast
        from f dom have r: "format_loop (kwargs format_args) None (drop ?p' s)
            = Inr (concat (map (part_value format_args) parts))" by blast
        have "format_loop (kwargs format_args) None (drop p s)
            = format_loop (kwargs format_args) None (''{'' @ token_value a @ ''}'' @ drop ?p' s)"
          using occurs_split[OF o] by simp
        also have "\<dots> = emit v (format_loop (kwargs format_args) None (drop ?p' s))"
          by (simp only: format_field kwargs_token v option.case)
        finally show ?thesis using r v by (simp add: emit_def)
      qed
      from 1 2 3 show ?thesis by blast
    next
      case nopen: False
      have nclose: "s ! p \<noteq> CHR ''}''"
      proof
        assume "s ! p = CHR ''}''"
        with V2 pl obtain a where le: "length (token_value a) + 1 \<le> p"
          and o: "occurs s (p - (length (token_value a) + 1)) a"
          by (auto simp: ends_token_def)
        from le have "p - (length (token_value a) + 1) < p" by simp
        with less.prems(2) o
        have "p - (length (token_value a) + 1) + length (token_value a) + 2 \<le> p" by blast
        with le show False by simp
      qed
      have b': "\<forall>i t. i < Suc p \<and> occurs s i t \<longrightarrow> i + length (token_value t) + 2 \<le> Suc p"
      proof (intro allI impI)
        fix i t assume h: "i < Suc p \<and> occurs s i t"
        with occurs_open[of s i t] nopen have "i < p" by (cases "i = p") auto
        with h less.prems(2) have "i + length (token_value t) + 2 \<le> p" by blast
        then show "i + length (token_value t) + 2 \<le> Suc p" by simp
      qed
      have m: "length s - Suc p < length s - p" using pl by simp
      from pl have sl: "Suc p \<le> length s" by simp
      from less.hyps[OF m sl b']
      obtain parts where ps: "drop (Suc p) s = concat (map part_text parts)"
        and ok: "list_all (part_ok al) parts"
        and f: "\<forall>format_args. set al \<subseteq> dom format_args \<longrightarrow>
          format_loop (kwargs format_args) None (drop (Suc p) s)
            = Inr (concat (map (part_value format_args) parts))"
        by blast
      have 1: "drop p s = concat (map part_text (Literal [s ! p] # parts))"
        using d ps by simp
      have 2: "list_all (part_ok al) (Literal [s ! p] # parts)" using nopen nclose ok by auto
      have 3: "format_loop (kwargs format_args) None (drop p s)
            = Inr (concat (map (part_value format_args) (Literal [s ! p] # parts)))"
        if dom: "set al \<subseteq> dom format_args" for format_args
      proof -
        from f dom have r: "format_loop (kwargs format_args) None (drop (Suc p) s)
            = Inr (concat (map (part_value format_args) parts))" by blast
        have "format_loop (kwargs format_args) None (drop p s)
            = emit [s ! p] (format_loop (kwargs format_args) None (drop (Suc p) s))"
          using format_literal[OF nopen nclose, of "kwargs format_args" "drop (Suc p) s"] d
          by (simp only:)
        with r show ?thesis by (simp add: emit_def)
      qed
      from 1 2 3 show ?thesis by blast
    qed
  qed
qed

text \<open>
  Claim C10. Validation raises \<open>ValueError\<close>, the only error it has, exactly when some
  opening brace does not begin \<open>{TOKEN}\<close> for an allowed token or some closing brace
  does not end one. A template that passes is a sequence of texts without braces and of
  substitutions of allowed tokens, and \<open>format\<close> with every allowed token supplied
  returns the texts unchanged with each substitution replaced by the value of its token.
\<close>

theorem validated_template:
  "(validate_format_string format_str allowed_args = Inl ValueError \<longleftrightarrow>
      (\<exists>i < length format_str. format_str ! i = CHR ''{'' \<and> \<not> begins_token format_str allowed_args i) \<or>
      (\<exists>j < length format_str. format_str ! j = CHR ''}'' \<and> \<not> ends_token format_str allowed_args j))
   \<and> (validate_format_string format_str allowed_args \<noteq> Inl ValueError \<longrightarrow>
        validate_format_string format_str allowed_args = Inr () \<and>
        (\<exists>parts. format_str = concat (map part_text parts) \<and> list_all (part_ok allowed_args) parts \<and>
           (\<forall>format_args. set allowed_args \<subseteq> dom format_args \<longrightarrow>
              format format_str format_args = Inr (concat (map (part_value format_args) parts)))))"
proof (intro conjI impI)
  show "validate_format_string format_str allowed_args = Inl ValueError \<longleftrightarrow>
      (\<exists>i < length format_str. format_str ! i = CHR ''{'' \<and> \<not> begins_token format_str allowed_args i) \<or>
      (\<exists>j < length format_str. format_str ! j = CHR ''}'' \<and> \<not> ends_token format_str allowed_args j)"
    by (rule validate_raises)
next
  assume v: "validate_format_string format_str allowed_args \<noteq> Inl ValueError"
  with validate_cases[of format_str allowed_args]
  show "validate_format_string format_str allowed_args = Inr ()" by simp
next
  assume v: "validate_format_string format_str allowed_args \<noteq> Inl ValueError"
  with validate_raises[of format_str allowed_args]
  have V1: "\<forall>i < length format_str. format_str ! i = CHR ''{'' \<longrightarrow> begins_token format_str allowed_args i"
    and V2: "\<forall>j < length format_str. format_str ! j = CHR ''}'' \<longrightarrow> ends_token format_str allowed_args j"
    by blast+
  from template_suffix[OF V1 V2, of 0]
  show "\<exists>parts. format_str = concat (map part_text parts) \<and> list_all (part_ok allowed_args) parts \<and>
           (\<forall>format_args. set allowed_args \<subseteq> dom format_args \<longrightarrow>
              format format_str format_args = Inr (concat (map (part_value format_args) parts)))"
    by (simp add: format_def)
qed

theorem validated_template_witness:
  "validate_format_string ''hi {AI_NAME}!'' [AI_NAME] \<noteq> Inl ValueError
   \<and> set [AI_NAME] \<subseteq> dom [AI_NAME \<mapsto> ''Bot'']
   \<and> (\<exists>parts. ''hi {AI_NAME}!'' = concat (map part_text parts) \<and> list_all (part_ok [AI_NAME]) parts \<and>
         format ''hi {AI_NAME}!'' [AI_NAME \<mapsto> ''Bot''] = Inr (concat (map (part_value [AI_NAME \<mapsto> ''Bot'']) parts)))
   \<and> format ''hi {AI_NAME}!'' [AI_NAME \<mapsto> ''Bot''] = Inr ''hi Bot!''
   \<and> (1 < length ''a}'' \<and> ''a}'' ! 1 = CHR ''}'' \<and> \<not> ends_token ''a}'' [AI_NAME] 1)
   \<and> validate_format_string ''a}'' [AI_NAME] = Inl ValueError"
proof -
  have v: "validate_format_string ''hi {AI_NAME}!'' [AI_NAME] \<noteq> Inl ValueError"
    by code_simp
  have d: "set [AI_NAME] \<subseteq> dom [AI_NAME \<mapsto> ''Bot'']" by simp
  have f: "format ''hi {AI_NAME}!'' [AI_NAME \<mapsto> ''Bot''] = Inr ''hi Bot!''"
    by code_simp
  have c: "1 < length ''a}'' \<and> ''a}'' ! 1 = CHR ''}'' \<and> \<not> ends_token ''a}'' [AI_NAME] 1"
    by (simp add: ends_token_def occurs_def slice_def)
  from validated_template[of "''hi {AI_NAME}!''" "[AI_NAME]"] v d
  have 1: "\<exists>parts. ''hi {AI_NAME}!'' = concat (map part_text parts) \<and> list_all (part_ok [AI_NAME]) parts \<and>
         format ''hi {AI_NAME}!'' [AI_NAME \<mapsto> ''Bot''] = Inr (concat (map (part_value [AI_NAME \<mapsto> ''Bot'']) parts))"
    by blast
  from validated_template[of "''a}''" "[AI_NAME]"] c
  have 2: "validate_format_string ''a}'' [AI_NAME] = Inl ValueError" by blast
  from v d f c 1 2 show ?thesis by blast
qed

end
